theory Spec2Isabelle
  imports Main "HOL-Library.AList"
begin

section \<open>Set-overlap primitive (\<open>overlap\<close>, utils.py lines 33-57)\<close>

text \<open>
  The two iterables are finite sequences, modelled as lists; \<open>next\<close> on an exhausted
  iterator raises \<open>StopIteration\<close>, which the source catches to set the \<open>over\<close> flag.
  One half of a round of the \<open>while\<close> loop pulls from one side: it either finds the pulled
  item in the other side's visited set (the function returns \<open>True\<close>), or records the item
  in its own visited set, or marks its iterator as exhausted.
\<close>

datatype 'a pull = Found | Continue "'a set" "'a list" bool

fun pull_next :: "'a set \<Rightarrow> 'a set \<Rightarrow> 'a list \<Rightarrow> bool \<Rightarrow> 'a pull" where
  "pull_next met_mine met_other it over =
     (if over then Continue met_mine it True
      else (case it of
              [] \<Rightarrow> Continue met_mine [] True
            | item # rest \<Rightarrow>
                if item \<in> met_other then Found
                else Continue (insert item met_mine) rest False))"

function overlap_loop ::
  "'a set \<Rightarrow> 'a set \<Rightarrow> 'a list \<Rightarrow> 'a list \<Rightarrow> bool \<Rightarrow> bool \<Rightarrow> bool" where
  "overlap_loop met_in_a met_in_b iter_a iter_b over_a over_b =
     (if over_a \<and> over_b then False
      else (case pull_next met_in_a met_in_b iter_a over_a of
              Found \<Rightarrow> True
            | Continue met_in_a' iter_a' over_a' \<Rightarrow>
                (case pull_next met_in_b met_in_a' iter_b over_b of
                   Found \<Rightarrow> True
                 | Continue met_in_b' iter_b' over_b' \<Rightarrow>
                     overlap_loop met_in_a' met_in_b' iter_a' iter_b' over_a' over_b')))"
  by pat_completeness auto
termination
  by (relation "measure (\<lambda>(ma, mb, ia, ib, oa, ob).
        length ia + length ib + (if oa then 0 else 1) + (if ob then 0 else 1))")
     (auto split: if_splits list.splits)

definition overlap :: "'a list \<Rightarrow> 'a list \<Rightarrow> bool" where
  "overlap a b = overlap_loop {} {} a b False False"

section \<open>Lexical normalizer (\<open>replace_symbols_with\<close>, \<open>owl_name\<close>, utils.py lines 60-82)\<close>

text \<open>
  A Python \<open>str\<close> is a sequence of Unicode code points, modelled as a list of naturals.
\<close>

type_synonym ustr = "nat list"

definition ustr_of :: "string \<Rightarrow> ustr" where
  "ustr_of s = map of_char s"

text \<open>
  \<open>unidecode.unidecode\<close> belongs to a library outside the repository. It transliterates
  character by character: a code point below 128 is kept, any other code point is replaced
  by the entry of the library's transliteration table, which is a parameter here.
\<close>

definition unidecode :: "(nat \<Rightarrow> ustr) \<Rightarrow> ustr \<Rightarrow> ustr" where
  "unidecode table name = concat (map (\<lambda>c. if c < 128 then [c] else table c) name)"

text \<open>
  The character classes below are those of Python on ASCII code points, which is what
  reaches them after \<open>unidecode\<close>: \<open>str.strip()\<close> removes the characters for which
  \<open>str.isspace\<close> holds (tab, line feed, vertical tab, form feed, carriage return, the four
  separators 28 to 31, and space); the pattern \<open>[^A-Za-z\d_]\<close> matches every character that
  is not a letter, a digit or the underscore.
\<close>

definition is_space :: "nat \<Rightarrow> bool" where
  "is_space c = ((9 \<le> c \<and> c \<le> 13) \<or> (28 \<le> c \<and> c \<le> 32))"

definition is_upper :: "nat \<Rightarrow> bool" where
  "is_upper c = (65 \<le> c \<and> c \<le> 90)"

definition is_lower :: "nat \<Rightarrow> bool" where
  "is_lower c = (97 \<le> c \<and> c \<le> 122)"

definition is_digit :: "nat \<Rightarrow> bool" where
  "is_digit c = (48 \<le> c \<and> c \<le> 57)"

definition underscore :: nat where
  "underscore = 95"

definition PATTERN_SYMBOLS :: "nat \<Rightarrow> bool" where
  "PATTERN_SYMBOLS c = (\<not> (is_upper c \<or> is_lower c \<or> is_digit c \<or> c = underscore))"

definition strip :: "ustr \<Rightarrow> ustr" where
  "strip name = rev (dropWhile is_space (rev (dropWhile is_space name)))"

definition re_sub :: "(nat \<Rightarrow> bool) \<Rightarrow> ustr \<Rightarrow> ustr \<Rightarrow> ustr" where
  "re_sub pattern replacement name =
     concat (map (\<lambda>c. if pattern c then replacement else [c]) name)"

definition endswith :: "ustr \<Rightarrow> ustr \<Rightarrow> bool" where
  "endswith s suffix =
     (length suffix \<le> length s \<and> drop (length s - length suffix) s = suffix)"

text \<open>
  The loop \<open>while replaced.endswith(replacement): replaced = replaced[:-1]\<close> drops one
  character per round. With an empty replacement its condition is always true, so it need
  not return: the result is an option, \<open>None\<close> standing for a loop that never exits.
\<close>

partial_function (option) strip_trailing :: "ustr \<Rightarrow> ustr \<Rightarrow> ustr option" where
  "strip_trailing replaced replacement =
     (if endswith replaced replacement
      then strip_trailing (butlast replaced) replacement
      else Some replaced)"

declare strip_trailing.simps [code]

definition replace_symbols_with :: "ustr \<Rightarrow> ustr \<Rightarrow> ustr option" where
  "replace_symbols_with name replacement =
     strip_trailing (re_sub PATTERN_SYMBOLS replacement name) replacement"

definition lower_char :: "nat \<Rightarrow> nat" where
  "lower_char c = (if is_upper c then c + 32 else c)"

definition upper_char :: "nat \<Rightarrow> nat" where
  "upper_char c = (if is_lower c then c - 32 else c)"

definition lower :: "ustr \<Rightarrow> ustr" where
  "lower name = map lower_char name"

definition capitalize :: "ustr \<Rightarrow> ustr" where
  "capitalize name =
     (case name of [] \<Rightarrow> [] | c # cs \<Rightarrow> upper_char c # map lower_char cs)"

definition owl_name :: "(nat \<Rightarrow> ustr) \<Rightarrow> ustr \<Rightarrow> bool \<Rightarrow> ustr option" where
  "owl_name table name instance =
     (case replace_symbols_with (strip (unidecode table name)) [underscore] of
        None \<Rightarrow> None
      | Some replaced \<Rightarrow>
          Some (if \<not> instance then capitalize (lower replaced) else lower replaced))"

section \<open>Taxonomy (the class graph that owlready2 provides)\<close>

text \<open>
  Modelled from the spec: the class objects of the owlready2 library (\<open>owlready.Thing\<close>,
  \<open>ThingClass\<close> objects with \<open>ancestors()\<close>, \<open>descendants()\<close>, \<open>subclasses()\<close>, and
  \<open>onto.classes()\<close>) are not part of the repository. Following the data model and the
  design notes of the specification, the taxonomy is an explicit adjacency structure: each
  declared class with the list of its direct superclasses; the direct subclasses are
  derived from it, and the ancestors and descendants of a class are the classes reachable
  along these edges, with the class itself when \<open>include_self\<close> is set. \<open>Thing\<close> is the
  universal top node: a class declared without another parent has \<open>[Thing]\<close> as its
  direct superclasses, and \<open>Thing\<close> itself is not among the declared classes.

  Where a function of the source accepts a class or its name (\<open>str | ThingClass\<close>), the
  model takes the class: the name is resolved by owlready2's \<open>onto[name]\<close>.
\<close>

datatype cls = Thing | Cls string

type_synonym taxonomy = "(cls \<times> cls list) list"

text \<open>
  Modelled from the spec: \<open>onto.classes()\<close>, the declared classes, each once; \<open>is_a\<close>,
  the direct superclasses of a class; \<open>subclasses()\<close>, the declared classes that have the
  class among their direct superclasses.
\<close>

definition classes :: "taxonomy \<Rightarrow> cls list" where
  "classes T = remdups (map fst T)"

definition is_a :: "taxonomy \<Rightarrow> cls \<Rightarrow> cls list" where
  "is_a T c = (case map_of T c of None \<Rightarrow> [] | Some parents \<Rightarrow> parents)"

definition is_a_edges :: "taxonomy \<Rightarrow> (cls \<times> cls) list" where
  "is_a_edges T = concat (map (\<lambda>c. map (Pair c) (is_a T c)) (classes T))"


text \<open>
  Modelled from the spec: \<open>ancestors(include_self)\<close> and \<open>descendants(include_self)\<close>
  return the set of the classes reachable upwards, respectively downwards, along the
  superclass edges. The set is given as a list without duplicates; its order is of no
  consequence, since the source only passes it to \<open>overlap\<close> or compares it as a set.
\<close>

definition ancestors :: "taxonomy \<Rightarrow> cls \<Rightarrow> bool \<Rightarrow> cls list" where
  "ancestors T c include_self =
     remdups ((if include_self then [c] else []) @
              filter (\<lambda>a. (c, a) \<in> (set (is_a_edges T))\<^sup>+) (map snd (is_a_edges T)))"

definition descendants :: "taxonomy \<Rightarrow> cls \<Rightarrow> bool \<Rightarrow> cls list" where
  "descendants T c include_self =
     remdups ((if include_self then [c] else []) @
              filter (\<lambda>d. (d, c) \<in> (set (is_a_edges T))\<^sup>+) (map fst (is_a_edges T)))"

text \<open>
  The taxonomy invariant of the data model: the class graph has no cycle. The test runs
  over the declared classes, so it can be evaluated.
\<close>

definition dag :: "taxonomy \<Rightarrow> bool" where
  "dag T = (\<forall>c \<in> set (classes T). (c, c) \<notin> (set (is_a_edges T))\<^sup>+)"

section \<open>Taxonomy relation oracle (\<open>subtype\<close>, \<open>supertype\<close>, utils.py lines 67-72)\<close>

definition subtype :: "taxonomy \<Rightarrow> cls \<Rightarrow> cls \<Rightarrow> bool \<Rightarrow> bool" where
  "subtype T cls1 cls2 strict = overlap [cls1] (descendants T cls2 (\<not> strict))"

definition supertype :: "taxonomy \<Rightarrow> cls \<Rightarrow> cls \<Rightarrow> bool \<Rightarrow> bool" where
  "supertype T cls1 cls2 strict = overlap [cls1] (ancestors T cls2 (\<not> strict))"

section \<open>Root inference (\<open>_find_root_class\<close>, utils.py lines 98-106)\<close>

text \<open>
  \<open>things\<close> is a Python set, modelled as a list without duplicates (\<open>List.insert\<close> adds
  an element only if it is absent); \<open>first(things)\<close> is taken only when the set has one
  element.
\<close>

definition find_root_class :: "taxonomy \<Rightarrow> cls" where
  "find_root_class T =
     (let things = foldl (\<lambda>things c.
                      if set (ancestors T c True) = {Thing, c} then List.insert c things
                      else things) [] (classes T)
      in if length things = 1 then hd things else Thing)"

section \<open>Taxonomy traversal (\<open>visit_classes_depth_first\<close>, utils.py lines 167-176)\<close>


section \<open>Instances and the knowledge graph\<close>

text \<open>
  Modelled from the spec: the individuals of the owlready2 library are not part of the
  repository. Following the data model of the specification, an individual has a
  canonical name, the list of the classes it directly instantiates (\<open>is_instance_of\<close>), and
  named multi-valued properties whose values are individuals, classes or literals. An individual
  is referred to by its name, which is its identity within the graph. The graph holds the
  taxonomy, the individuals, and whether the ontology declares the \<open>fancyName\<close> property
  (the test \<open>self.onto.fancyName is not None\<close>).
\<close>

datatype val = Inst ustr | ClassVal cls | Lit ustr

record individual =
  name :: ustr
  is_instance_of :: "cls list"
  properties :: "(string \<times> val list) list"

record graph =
  onto_classes :: taxonomy
  onto_individuals :: "individual list"
  onto_fancyName :: bool

datatype error = KeyError | ValueError

text \<open>
  Modelled from the spec: the universal top is recorded when an instance has no other
  classification. owlready2 keeps \<open>is_instance_of\<close> in a list with a callback that runs
  after every change of the list: when the change leaves no class in the list, the
  callback inserts \<open>Thing\<close> at index 0. \<open>remove\<close> deletes the first occurrence and raises
  \<open>ValueError\<close> for an element that is not in the list; \<open>append\<close> adds at the end.
\<close>

definition is_a_changed :: "cls list \<Rightarrow> cls list" where
  "is_a_changed l = (if l = [] then [Thing] else l)"

definition list_remove :: "cls \<Rightarrow> cls list \<Rightarrow> error + cls list" where
  "list_remove x l = (if x \<in> set l then Inr (is_a_changed (remove1 x l)) else Inl ValueError)"

definition list_append :: "cls list \<Rightarrow> cls \<Rightarrow> cls list" where
  "list_append l x = is_a_changed (l @ [x])"

definition individual_named :: "graph \<Rightarrow> ustr \<Rightarrow> individual option" where
  "individual_named G n = find (\<lambda>i. name i = n) (onto_individuals G)"

text \<open>
  A mutation of an individual reaches the graph, which shares the object: \<open>store\<close> writes
  the new state of an individual back (or enters a new individual).
\<close>

definition store :: "graph \<Rightarrow> individual \<Rightarrow> graph" where
  "store G i =
     (if \<exists>x \<in> set (onto_individuals G). name x = name i
      then G\<lparr>onto_individuals := map (\<lambda>x. if name x = name i then i else x) (onto_individuals G)\<rparr>
      else G\<lparr>onto_individuals := onto_individuals G @ [i]\<rparr>)"

text \<open>
  Modelled from the spec: \<open>cls.instances()\<close> enumerates the individuals that instantiate
  the class, directly or through one of its descendants.
\<close>

definition instances :: "graph \<Rightarrow> cls \<Rightarrow> individual list" where
  "instances G c =
     filter (\<lambda>i. \<exists>d \<in> set (is_instance_of i). d \<in> set (descendants (onto_classes G) c True))
            (onto_individuals G)"

text \<open>
  Modelled from the spec: the constructor call \<open>cls(name)\<close> creates a new individual under
  the class. Names are unique in the graph: for a name already in use (by an individual
  that is not an instance of the class), owlready2 hands back the existing individual with
  the class added to its direct classes.
\<close>

definition construct :: "graph \<Rightarrow> cls \<Rightarrow> ustr \<Rightarrow> individual" where
  "construct G c n =
     (case individual_named G n of
        None \<Rightarrow> \<lparr>name = n, is_instance_of = [c], properties = []\<rparr>
      | Some i \<Rightarrow> if c \<in> set (is_instance_of i) then i
                  else i\<lparr>is_instance_of := list_append (is_instance_of i) c\<rparr>)"

text \<open>
  Modelled from the spec: \<open>destroy_entity\<close> deletes the individual and all its direct
  relationships from the graph, the references to it in the properties of other
  individuals included.
\<close>

definition destroy_entity :: "graph \<Rightarrow> ustr \<Rightarrow> graph" where
  "destroy_entity G n =
     G\<lparr>onto_individuals :=
         map (\<lambda>i. i\<lparr>properties := map (\<lambda>(p, vs). (p, filter (\<lambda>v. v \<noteq> Inst n) vs)) (properties i)\<rparr>)
             (filter (\<lambda>i. name i \<noteq> n) (onto_individuals G))\<rparr>"

text \<open>
  \<open>getattr(instance, property)\<close> gives the values of a property, none for a property
  the individual does not carry; \<open>get_properties()\<close> gives the properties for which the
  individual has a value.
\<close>

definition getattr :: "individual \<Rightarrow> string \<Rightarrow> val list" where
  "getattr i p = (case map_of (properties i) p of None \<Rightarrow> [] | Some vs \<Rightarrow> vs)"

definition get_properties :: "individual \<Rightarrow> string list" where
  "get_properties i = map fst (filter (\<lambda>(p, vs). vs \<noteq> []) (properties i))"

definition first_or_none :: "'a list \<Rightarrow> 'a option" where
  "first_or_none iterable = (case iterable of [] \<Rightarrow> None | x # _ \<Rightarrow> Some x)"

section \<open>Graph mutation engine (utils.py lines 108-165)\<close>

subsection \<open>\<open>add_property\<close>\<close>

definition add_property :: "individual \<Rightarrow> string \<Rightarrow> val \<Rightarrow> individual" where
  "add_property i property v =
     (let property_values = getattr i property
      in if v \<notin> set property_values
         then i\<lparr>properties := AList.update property (property_values @ [v]) (properties i)\<rparr>
         else i)"

subsection \<open>\<open>set_class_of_instance\<close>\<close>

text \<open>
  The loop \<open>for type in too_generic_types: instance.is_instance_of.remove(type)\<close>.
\<close>

fun remove_each :: "cls list \<Rightarrow> cls list \<Rightarrow> error + cls list" where
  "remove_each [] l = Inr l"
| "remove_each (t # ts) l =
     (case list_remove t l of Inl e \<Rightarrow> Inl e | Inr l' \<Rightarrow> remove_each ts l')"

text \<open>
  Line 126 looks up \<open>owlready.ThingClass\<close> in the list of direct classes, where line 127
  removes \<open>owlready.Thing\<close>. \<open>ThingClass\<close> is the metaclass of the class objects: a Python
  object, not a class of the taxonomy. \<open>pyobj\<close> holds the objects this membership test
  compares.
\<close>

datatype pyobj = ClassObj cls | ThingClass

definition py_in :: "pyobj \<Rightarrow> cls list \<Rightarrow> bool" where
  "py_in x l = (x \<in> set (map ClassObj l))"

text \<open>
  The function changes \<open>instance.is_instance_of\<close> and returns the instance. The sets
  \<open>initial\<close> and \<open>final\<close> of the source are local snapshots that nothing reads.
\<close>

definition set_class_of_instance :: "taxonomy \<Rightarrow> individual \<Rightarrow> cls \<Rightarrow> error + individual" where
  "set_class_of_instance T i c =
     (let too_generic_types = filter (\<lambda>t. supertype T t c True) (is_instance_of i);
          too_specific_types = filter (\<lambda>t. subtype T t c False) (is_instance_of i)
      in case (if length too_generic_types > 0
               then remove_each too_generic_types (is_instance_of i)
               else Inr (is_instance_of i)) of
           Inl e \<Rightarrow> Inl e
         | Inr l1 \<Rightarrow>
             (let l2 = (if length too_specific_types = 0 then list_append l1 c else l1)
              in case (if length l2 > 1 \<and> py_in ThingClass l2
                       then list_remove Thing l2 else Inr l2) of
                   Inl e \<Rightarrow> Inl e
                 | Inr l3 \<Rightarrow> Inr (i\<lparr>is_instance_of := l3\<rparr>)))"

text \<open>
  The most-specific-class invariant of the data model: the direct classes contain no class
  together with one of that class's strict ancestors.
\<close>

definition most_specific :: "taxonomy \<Rightarrow> cls list \<Rightarrow> bool" where
  "most_specific T l = (\<forall>c \<in> set l. \<forall>a \<in> set l. a \<notin> set (ancestors T c False))"

subsection \<open>\<open>add_instance\<close>\<close>

text \<open>
  The result is \<open>None\<close> if the call does not return, \<open>Inl\<close> for a raised exception, and
  otherwise the returned instance with the graph after the call. \<open>KeyError\<close> is the
  exception of the source for an instance that already exists. The class is the class
  object that line 140 works with, after the lookup of a name.
\<close>

definition add_instance ::
  "(nat \<Rightarrow> ustr) \<Rightarrow> graph \<Rightarrow> cls \<Rightarrow> ustr \<Rightarrow> bool \<Rightarrow> (error + individual \<times> graph) option" where
  "add_instance table G c raw_name add_to_class_if_existing =
     (let fancy_name = raw_name
      in case owl_name table raw_name True of
           None \<Rightarrow> None
         | Some n \<Rightarrow>
             Some
               (case (case first_or_none (filter (\<lambda>i. name i = n) (instances G c)) of
                        Some i \<Rightarrow>
                          if add_to_class_if_existing
                          then (case set_class_of_instance (onto_classes G) i c of
                                  Inl e \<Rightarrow> Inl e
                                | Inr i' \<Rightarrow> Inr (i', store G i'))
                          else Inl KeyError
                      | None \<Rightarrow> (let i = construct G c n in Inr (i, store G i))) of
                  Inl e \<Rightarrow> Inl e
                | Inr (i, G1) \<Rightarrow>
                    if onto_fancyName G1 \<and> n \<noteq> fancy_name
                    then (let i' = add_property i ''fancyName'' (Lit fancy_name)
                          in Inr (i', store G1 i'))
                    else Inr (i, G1)))"

subsection \<open>\<open>merge_instances\<close>\<close>

text \<open>
  The two instances are given by their names. The loops read the properties of the
  second instance and add each value to the first one in the graph.
\<close>

definition add_property_in :: "graph \<Rightarrow> ustr \<Rightarrow> string \<Rightarrow> val \<Rightarrow> graph" where
  "add_property_in G n property v =
     (case individual_named G n of
        None \<Rightarrow> G
      | Some i \<Rightarrow> store G (add_property i property v))"

definition getattr_in :: "graph \<Rightarrow> ustr \<Rightarrow> string \<Rightarrow> val list" where
  "getattr_in G n p = (case individual_named G n of None \<Rightarrow> [] | Some i \<Rightarrow> getattr i p)"

definition get_properties_in :: "graph \<Rightarrow> ustr \<Rightarrow> string list" where
  "get_properties_in G n =
     (case individual_named G n of None \<Rightarrow> [] | Some i \<Rightarrow> get_properties i)"

definition merge_instances :: "graph \<Rightarrow> ustr \<Rightarrow> ustr \<Rightarrow> cls \<Rightarrow> bool \<times> graph" where
  "merge_instances G instance1 instance2 c =
     (let all_instances = map name (instances G c)
      in if \<not> (instance1 \<in> set all_instances) then (False, G)
         else if \<not> (instance2 \<in> set all_instances) then (False, G)
         else (True,
               destroy_entity
                 (foldl (\<lambda>g prop.
                     if prop \<noteq> ''fancyName''
                     then foldl (\<lambda>g' v. add_property_in g' instance1 prop v) g
                                (getattr_in g instance2 prop)
                     else g)
                   G (get_properties_in G instance2))
                 instance2))"

text \<open>
  Following the words of the specification, for comparison with the test that
  \<open>find_root_class\<close> makes: a class sits directly under the universal top, with no
  intermediate class, when its strict ancestors are exactly the top.
\<close>

definition directly_under_top :: "taxonomy \<Rightarrow> cls \<Rightarrow> bool" where
  "directly_under_top T c = (set (ancestors T c False) = {Thing})"

section \<open>Example taxonomies\<close>

text \<open>
  The chain of the specification's scenarios, \<open>Animal\<close> above \<open>Bird\<close> above \<open>Penguin\<close>,
  and the taxonomy with the two unrelated top-level classes \<open>Animal\<close> and \<open>Vehicle\<close>.
\<close>

definition chain :: taxonomy where
  "chain = [(Cls ''Animal'', [Thing]), (Cls ''Bird'', [Cls ''Animal'']), (Cls ''Penguin'', [Cls ''Bird''])]"

definition two_roots :: taxonomy where
  "two_roots = [(Cls ''Animal'', [Thing]), (Cls ''Vehicle'', [Thing])]"

text \<open>
  The instance \<open>tweety\<close> under \<open>Bird\<close>, and a graph over the chain that holds it.
\<close>

definition tweety_bird :: individual where
  "tweety_bird = \<lparr>name = ustr_of ''tweety'', is_instance_of = [Cls ''Bird''], properties = []\<rparr>"

definition aviary :: graph where
  "aviary = \<lparr>onto_classes = chain, onto_individuals = [tweety_bird], onto_fancyName = True\<rparr>"

text \<open>
  A second instance, \<open>polly\<close>, also under \<open>Bird\<close>, with a literal property and a
  property that refers to both instances; and the graph that holds the two.
\<close>

definition polly :: individual where
  "polly = \<lparr>name = ustr_of ''polly'', is_instance_of = [Cls ''Bird''],
             properties = [(''fancyName'', [Lit (ustr_of ''Polly'')]),
                           (''colour'', [Lit (ustr_of ''grey'')]),
                           (''follows'', [Inst (ustr_of ''tweety''), Inst (ustr_of ''polly'')])]\<rparr>"

definition flock :: graph where
  "flock = \<lparr>onto_classes = chain, onto_individuals = [tweety_bird, polly], onto_fancyName = True\<rparr>"

section \<open>Closed forms used in the proofs\<close>

text \<open>
  For the normalizer: the closed form of the trailing-underscore loop, of the whole
  pipeline after transliteration and of its lower-cased intermediate result, and the
  characters of a lower-cased result.
\<close>

definition rstrip_underscore :: "ustr \<Rightarrow> ustr" where
  "rstrip_underscore s = rev (dropWhile (\<lambda>x. x = underscore) (rev s))"

definition normal_form :: "bool \<Rightarrow> ustr \<Rightarrow> ustr" where
  "normal_form instance s =
     (let l = lower (rstrip_underscore (re_sub PATTERN_SYMBOLS [underscore] (strip s)))
      in if \<not> instance then capitalize l else l)"

definition lw :: "nat \<Rightarrow> bool" where
  "lw c = (is_lower c \<or> is_digit c \<or> c = underscore)"

definition lowered :: "ustr \<Rightarrow> ustr" where
  "lowered s = lower (rstrip_underscore (re_sub PATTERN_SYMBOLS [underscore] (strip s)))"


text \<open>For \<open>set_class_of_instance\<close>: the direct classes after a call.\<close>

definition reclassified :: "taxonomy \<Rightarrow> cls list \<Rightarrow> cls \<Rightarrow> cls list" where
  "reclassified T l c =
     (let kept = filter (\<lambda>t. \<not> supertype T t c True) l
      in (if kept = [] \<and> l \<noteq> [] then [Thing] else kept) @
         (if filter (\<lambda>t. subtype T t c False) l = [] then [c] else []))"

text \<open>For \<open>merge_instances\<close>: one round of its outer loop.\<close>

definition merge_property :: "ustr \<Rightarrow> ustr \<Rightarrow> graph \<Rightarrow> string \<Rightarrow> graph" where
  "merge_property sv ab g prop =
     (if prop \<noteq> ''fancyName''
      then foldl (\<lambda>g' v. add_property_in g' sv prop v) g (getattr_in g ab prop)
      else g)"

section \<open>Correctness of the overlap loop\<close>

lemma pull_next_sets:
  assumes "pull_next met_mine met_other it over = Continue met' it' over'"
  shows "met' \<union> (if over' then {} else set it') = met_mine \<union> (if over then {} else set it)"
    and "met_mine \<inter> met_other = {} \<Longrightarrow> met' \<inter> met_other = {}"
  using assms by (auto split: if_splits list.splits)

lemma pull_next_Found:
  assumes "pull_next met_mine met_other it over = Found"
  shows "(if over then {} else set it) \<inter> met_other \<noteq> {}"
  using assms by (auto split: if_splits list.splits)

lemma overlap_loop_correct:
  "met_in_a \<inter> met_in_b = {} \<Longrightarrow>
   overlap_loop met_in_a met_in_b iter_a iter_b over_a over_b =
     ((met_in_a \<union> (if over_a then {} else set iter_a)) \<inter>
      (met_in_b \<union> (if over_b then {} else set iter_b)) \<noteq> {})"
proof (induction met_in_a met_in_b iter_a iter_b over_a over_b rule: overlap_loop.induct)
  case (1 ma mb ia ib oa ob)
  let ?A = "ma \<union> (if oa then {} else set ia)"
  let ?B = "mb \<union> (if ob then {} else set ib)"
  note unf = overlap_loop.simps[of ma mb ia ib oa ob]
  show ?case
  proof (cases "oa \<and> ob")
    case True
    have "overlap_loop ma mb ia ib oa ob = False"
      using True by (subst unf) (auto simp del: pull_next.simps overlap_loop.simps)
    with True "1.prems" show ?thesis by simp
  next
    case False
    show ?thesis
    proof (cases "pull_next ma mb ia oa")
      case Found
      have "overlap_loop ma mb ia ib oa ob = True"
        using False Found by (subst unf) (auto simp del: pull_next.simps overlap_loop.simps)
      moreover have "?A \<inter> ?B \<noteq> {}"
        using pull_next_Found[OF Found] by auto
      ultimately show ?thesis by simp
    next
      case (Continue ma' ia' oa')
      note ca = this
      have da: "ma' \<inter> mb = {}" using pull_next_sets(2)[OF ca "1.prems"] .
      have ea: "ma' \<union> (if oa' then {} else set ia') = ?A" using pull_next_sets(1)[OF ca] .
      show ?thesis
      proof (cases "pull_next mb ma' ib ob")
        case Found
        have "overlap_loop ma mb ia ib oa ob = True"
          using False ca Found by (subst unf) (auto simp del: pull_next.simps overlap_loop.simps)
        moreover have "?A \<inter> ?B \<noteq> {}"
        proof -
          obtain y where "y \<in> (if ob then {} else set ib)" "y \<in> ma'"
            using pull_next_Found[OF Found] by blast
          then have "y \<in> ?A" "y \<in> ?B" using ea by blast+
          then show ?thesis by blast
        qed
        ultimately show ?thesis by simp
      next
        case (Continue mb' ib' ob')
        note cb = this
        have db: "ma' \<inter> mb' = {}"
          using pull_next_sets(2)[OF cb] da by auto
        have eb: "mb' \<union> (if ob' then {} else set ib') = ?B" using pull_next_sets(1)[OF cb] .
        have "overlap_loop ma mb ia ib oa ob = overlap_loop ma' mb' ia' ib' oa' ob'"
          using False ca cb by (subst unf) (auto simp del: pull_next.simps overlap_loop.simps)
        also have "\<dots> = ((ma' \<union> (if oa' then {} else set ia')) \<inter>
                          (mb' \<union> (if ob' then {} else set ib')) \<noteq> {})"
          using "1.IH"[OF False ca cb db] .
        finally show ?thesis unfolding ea eb .
      qed
    qed
  qed
qed

lemma overlap_singleton: "overlap [x] b = (x \<in> set b)"
  by (simp add: overlap_def overlap_loop_correct del: overlap_loop.simps)

text \<open>
  Claim C4. For all finite sequences \<open>a\<close> and \<open>b\<close>, \<open>overlap a b\<close> returns true if and
  only if the set of elements of \<open>a\<close> and the set of elements of \<open>b\<close> have a non-empty
  intersection.
\<close>

theorem overlap_iff: "overlap a b = (set a \<inter> set b \<noteq> {})"
  by (simp add: overlap_def overlap_loop_correct del: overlap_loop.simps)

section \<open>Idempotence of the normalizer\<close>

lemma endswith_single: "endswith s [c] = (s \<noteq> [] \<and> last s = c)"
  by (cases s rule: rev_cases) (auto simp: endswith_def)

lemma strip_trailing_single:
  "strip_trailing s [c] = Some (rev (dropWhile (\<lambda>x. x = c) (rev s)))"
proof (induction s rule: rev_induct)
  case Nil
  show ?case by (subst strip_trailing.simps) (simp add: endswith_single)
next
  case (snoc x xs)
  show ?case
  proof (cases "x = c")
    case True
    then show ?thesis using snoc
      by (subst strip_trailing.simps) (simp add: endswith_single)
  next
    case False
    then show ?thesis
      by (subst strip_trailing.simps) (simp add: endswith_single)
  qed
qed

lemma owl_name_eq:
  "owl_name table s inst = Some (normal_form inst (unidecode table s))"
  by (simp add: owl_name_def replace_symbols_with_def strip_trailing_single
      normal_form_def rstrip_underscore_def Let_def)

lemma word_facts:
  "\<not> PATTERN_SYMBOLS c \<Longrightarrow> c < 128"
  "\<not> PATTERN_SYMBOLS c \<Longrightarrow> \<not> is_space c"
  "\<not> PATTERN_SYMBOLS c \<Longrightarrow> lw (lower_char c)"
  "lw c \<Longrightarrow> \<not> PATTERN_SYMBOLS c"
  "lw c \<Longrightarrow> lower_char c = c"
  "lw c \<Longrightarrow> \<not> PATTERN_SYMBOLS (upper_char c)"
  "lw c \<Longrightarrow> lower_char (upper_char c) = c"
  "(lower_char c = underscore) = (c = underscore)"
  "(upper_char c = underscore) = (c = underscore)"
  by (auto simp: PATTERN_SYMBOLS_def is_upper_def is_lower_def is_digit_def underscore_def
      is_space_def lw_def lower_char_def upper_char_def)

lemma unidecode_ascii: "\<forall>c \<in> set s. c < 128 \<Longrightarrow> unidecode table s = s"
  by (induction s) (auto simp: unidecode_def)

lemma strip_no_space: "\<forall>c \<in> set s. \<not> is_space c \<Longrightarrow> strip s = s"
proof -
  assume a: "\<forall>c \<in> set s. \<not> is_space c"
  then have "dropWhile is_space s = s" by (cases s) auto
  moreover from a have "dropWhile is_space (rev s) = rev s" by (cases "rev s") auto
  ultimately show ?thesis by (simp add: strip_def)
qed

lemma re_sub_word: "\<forall>c \<in> set s. \<not> PATTERN_SYMBOLS c \<Longrightarrow> re_sub PATTERN_SYMBOLS r s = s"
  by (induction s) (auto simp: re_sub_def)

lemma re_sub_is_word: "\<forall>c \<in> set (re_sub PATTERN_SYMBOLS [underscore] s). \<not> PATTERN_SYMBOLS c"
proof -
  have u: "\<not> PATTERN_SYMBOLS underscore" by (simp add: PATTERN_SYMBOLS_def)
  have "set (re_sub PATTERN_SYMBOLS [underscore] s) \<subseteq> insert underscore {c \<in> set s. \<not> PATTERN_SYMBOLS c}"
    by (auto simp: re_sub_def split: if_splits)
  then show ?thesis using u by blast
qed

lemma rstrip_clean_id: "s = [] \<or> last s \<noteq> underscore \<Longrightarrow> rstrip_underscore s = s"
  by (cases s rule: rev_cases) (auto simp: rstrip_underscore_def)

lemma rstrip_subset: "set (rstrip_underscore s) \<subseteq> set s"
  by (auto simp: rstrip_underscore_def dest: set_dropWhileD)

lemma rstrip_last: "rstrip_underscore s = [] \<or> last (rstrip_underscore s) \<noteq> underscore"
proof (cases "dropWhile (\<lambda>x. x = underscore) (rev s)")
  case Nil
  then show ?thesis by (simp add: rstrip_underscore_def)
next
  case (Cons y ys)
  then have "y \<noteq> underscore" using hd_dropWhile[of "\<lambda>x. x = underscore" "rev s"] by auto
  with Cons show ?thesis by (simp add: rstrip_underscore_def)
qed

lemma lowered_lw: "\<forall>c \<in> set (lowered s). lw c"
  using re_sub_is_word[of "strip s"] rstrip_subset[of "re_sub PATTERN_SYMBOLS [underscore] (strip s)"]
  by (auto simp: lowered_def lower_def word_facts)

lemma lowered_last: "lowered s = [] \<or> last (lowered s) \<noteq> underscore"
  using rstrip_last[of "re_sub PATTERN_SYMBOLS [underscore] (strip s)"]
  by (auto simp: lowered_def lower_def last_map word_facts)

lemma lowered_clean_word:
  assumes "\<forall>c \<in> set r. \<not> PATTERN_SYMBOLS c" "r = [] \<or> last r \<noteq> underscore"
  shows "lowered r = lower r"
  using assms by (simp add: lowered_def strip_no_space word_facts re_sub_word rstrip_clean_id)

lemma lower_lw: "\<forall>c \<in> set s. lw c \<Longrightarrow> lower s = s"
  by (induction s) (auto simp: lower_def word_facts)

lemma normal_form_alt:
  "normal_form inst s = (if inst then lowered s else capitalize (lowered s))"
  by (simp add: normal_form_def lowered_def)

lemma capitalize_lw:
  assumes "\<forall>c \<in> set n. lw c" "n = [] \<or> last n \<noteq> underscore"
  shows "\<forall>c \<in> set (capitalize n). \<not> PATTERN_SYMBOLS c"
    and "capitalize n = [] \<or> last (capitalize n) \<noteq> underscore"
    and "lower (capitalize n) = n"
proof -
  show "\<forall>c \<in> set (capitalize n). \<not> PATTERN_SYMBOLS c"
  proof (cases n)
    case Nil
    then show ?thesis by (simp add: capitalize_def)
  next
    case (Cons c cs)
    then have "lw c" "\<forall>x \<in> set cs. lw x" using assms(1) by auto
    then show ?thesis using Cons by (simp add: capitalize_def word_facts)
  qed
  show "lower (capitalize n) = n"
  proof (cases n)
    case Nil
    then show ?thesis by (simp add: capitalize_def lower_def)
  next
    case (Cons c cs)
    then have "lw c" "\<forall>x \<in> set cs. lw x" using assms(1) by auto
    then have "map lower_char (map lower_char cs) = cs"
      by (induction cs) (simp_all add: word_facts)
    then show ?thesis using Cons \<open>lw c\<close> by (simp add: capitalize_def lower_def word_facts)
  qed
  show "capitalize n = [] \<or> last (capitalize n) \<noteq> underscore"
  proof (cases n)
    case Nil
    then show ?thesis by (simp add: capitalize_def)
  next
    case (Cons c cs)
    show ?thesis
    proof (cases cs rule: rev_cases)
      case Nil
      then show ?thesis using Cons assms(2) by (simp add: capitalize_def word_facts)
    next
      case (snoc ys y)
      then show ?thesis using Cons assms(2) by (simp add: capitalize_def word_facts)
    qed
  qed
qed

lemma normal_form_idem:
  "normal_form inst (unidecode table (normal_form inst s)) = normal_form inst s"
proof -
  let ?n = "lowered s"
  have lw: "\<forall>c \<in> set ?n. lw c" by (rule lowered_lw)
  have last: "?n = [] \<or> last ?n \<noteq> underscore" by (rule lowered_last)
  show ?thesis
  proof (cases inst)
    case True
    have w: "\<forall>c \<in> set ?n. \<not> PATTERN_SYMBOLS c" using lw by (simp add: word_facts)
    have "unidecode table ?n = ?n" using w by (intro unidecode_ascii) (simp add: word_facts)
    moreover have "lowered ?n = lower ?n" using w last by (rule lowered_clean_word)
    moreover have "lower ?n = ?n" using lw by (rule lower_lw)
    ultimately show ?thesis using True by (simp only: normal_form_alt if_True)
  next
    case False
    let ?r = "capitalize ?n"
    note c = capitalize_lw[OF lw last]
    have "unidecode table ?r = ?r" using c(1) by (intro unidecode_ascii) (simp add: word_facts)
    moreover have "lowered ?r = lower ?r" using c(1) c(2) by (rule lowered_clean_word)
    moreover have "lower ?r = ?n" by (rule c(3))
    ultimately show ?thesis using False by (simp only: normal_form_alt if_False)
  qed
qed

text \<open>
  Claim C8. The lexical normalizer is idempotent: for every string \<open>s\<close> and for both modes
  (\<open>c\<close> true for instance names, false for class names), \<open>owl_name\<close> returns a result
  \<open>r\<close>, and applying it to \<open>r\<close> again in the same mode returns \<open>r\<close>. This holds for
  every transliteration table.
\<close>

theorem owl_name_idempotent:
  "\<exists>r. owl_name table s c = Some r \<and> owl_name table r c = Some r"
  by (simp add: owl_name_eq normal_form_idem)

section \<open>Taxonomy relations: correctness\<close>

lemma trancl_snd: "(c, a) \<in> r\<^sup>+ \<Longrightarrow> a \<in> snd ` r"
  by (metis tranclD2 image_eqI snd_conv)

lemma trancl_fst: "(d, c) \<in> r\<^sup>+ \<Longrightarrow> d \<in> fst ` r"
  by (metis tranclD image_eqI fst_conv)

lemma set_ancestors:
  "set (ancestors T c s) = (if s then {c} else {}) \<union> {a. (c, a) \<in> (set (is_a_edges T))\<^sup>+}"
  by (auto simp: ancestors_def dest: trancl_snd)

lemma set_descendants:
  "set (descendants T c s) = (if s then {c} else {}) \<union> {d. (d, c) \<in> (set (is_a_edges T))\<^sup>+}"
  by (auto simp: descendants_def dest: trancl_fst)

lemma subtype_iff:
  "subtype T a b s = ((\<not> s \<and> a = b) \<or> (a, b) \<in> (set (is_a_edges T))\<^sup>+)"
  by (auto simp: subtype_def overlap_singleton set_descendants)

lemma supertype_iff:
  "supertype T a b s = ((\<not> s \<and> a = b) \<or> (b, a) \<in> (set (is_a_edges T))\<^sup>+)"
  by (auto simp: supertype_def overlap_singleton set_ancestors)


lemma edge_declared: "(c, p) \<in> set (is_a_edges T) \<Longrightarrow> c \<in> set (classes T)"
  by (auto simp: is_a_edges_def)

lemma dag_no_cycle:
  assumes "dag T" shows "(c, c) \<notin> (set (is_a_edges T))\<^sup>+"
proof
  assume cyc: "(c, c) \<in> (set (is_a_edges T))\<^sup>+"
  then obtain p where "(c, p) \<in> set (is_a_edges T)" by (meson tranclD)
  then have "c \<in> set (classes T)" by (rule edge_declared)
  with assms cyc show False by (auto simp: dag_def)
qed


text \<open>
  Claim C5. For every class \<open>c\<close>, \<open>subtype c c\<close> is true in non-strict mode and, in a taxonomy
  without cycles, false in strict mode; and for all classes \<open>a\<close>, \<open>b\<close> and every strict
  flag \<open>s\<close>, \<open>subtype a b s\<close> equals \<open>supertype b a s\<close>.
\<close>

theorem subtype_supertype_contract:
  "subtype T c c False \<and> (dag T \<longrightarrow> \<not> subtype T c c True) \<and>
   (\<forall>a b s. subtype T a b s = supertype T b a s)"
  by (auto simp: subtype_iff supertype_iff dest: dag_no_cycle)

theorem subtype_supertype_contract_witness:
  "dag chain \<and> subtype chain (Cls ''Bird'') (Cls ''Bird'') False \<and>
   \<not> subtype chain (Cls ''Bird'') (Cls ''Bird'') True \<and>
   subtype chain (Cls ''Penguin'') (Cls ''Animal'') True = supertype chain (Cls ''Animal'') (Cls ''Penguin'') True"
proof -
  have d: "dag chain" by code_simp
  show ?thesis using d subtype_supertype_contract[of chain "Cls ''Bird''"] by blast
qed

section \<open>Root inference: correctness\<close>

lemma candidates_fold:
  "distinct acc \<Longrightarrow>
   distinct (foldl (\<lambda>things c. if P c then List.insert c things else things) acc xs) \<and>
   set (foldl (\<lambda>things c. if P c then List.insert c things else things) acc xs) =
     set acc \<union> {c \<in> set xs. P c}"
  by (induction xs arbitrary: acc) auto

lemma singleton_list: "distinct xs \<Longrightarrow> (length xs = 1) = (\<exists>r. set xs = {r})"
proof
  assume "distinct xs" "length xs = 1"
  then show "\<exists>r. set xs = {r}" by (cases xs) auto
next
  assume d: "distinct xs" and "\<exists>r. set xs = {r}"
  then obtain r where r: "set xs = {r}" by blast
  then have "card (set xs) = 1" by simp
  with d show "length xs = 1" by (simp add: distinct_card)
qed

lemma find_root_class_candidates:
  fixes T
  defines "C \<equiv> {c \<in> set (classes T). set (ancestors T c True) = {Thing, c}}"
  shows "C = {r} \<Longrightarrow> find_root_class T = r"
    and "(\<nexists>r. C = {r}) \<Longrightarrow> find_root_class T = Thing"
proof -
  let ?things = "foldl (\<lambda>things c.
                      if set (ancestors T c True) = {Thing, c} then List.insert c things
                      else things) [] (classes T)"
  have d: "distinct ?things" and s: "set ?things = C"
    using candidates_fold[of "[]" "\<lambda>c. set (ancestors T c True) = {Thing, c}" "classes T"]
    by (auto simp: C_def)
  { assume "C = {r}"
    then have "set ?things = {r}" using s by simp
    moreover from this have "length ?things = 1" using d singleton_list by blast
    ultimately have "?things = [r]" by (cases ?things) auto
    then show "find_root_class T = r" by (simp add: find_root_class_def Let_def) }
  { assume "\<nexists>r. C = {r}"
    then have "length ?things \<noteq> 1" using d s singleton_list by blast
    then show "find_root_class T = Thing" by (simp add: find_root_class_def Let_def) }
qed

lemma candidate_iff:
  assumes "dag T" "Thing \<notin> set (classes T)" "c \<in> set (classes T)"
  shows "(set (ancestors T c True) = {Thing, c}) = directly_under_top T c"
proof -
  have "c \<noteq> Thing" using assms by auto
  moreover have "c \<notin> {a. (c, a) \<in> (set (is_a_edges T))\<^sup>+}"
    using dag_no_cycle[OF assms(1)] by simp
  ultimately show ?thesis
    unfolding directly_under_top_def set_ancestors by auto
qed

text \<open>
  Claim C7. In a taxonomy without cycles whose declared classes do not include the
  universal top, \<open>find_root_class\<close> collects the declared classes that sit directly under
  the top with no intermediate ancestor; if exactly one such class \<open>r\<close> exists it returns
  \<open>r\<close>, and otherwise (no candidate, or more than one) it returns the top \<open>Thing\<close>.
\<close>

theorem find_root_class_spec:
  assumes "dag T" "Thing \<notin> set (classes T)"
  shows "({c \<in> set (classes T). directly_under_top T c} = {r} \<longrightarrow> find_root_class T = r) \<and>
         ((\<nexists>r. {c \<in> set (classes T). directly_under_top T c} = {r}) \<longrightarrow> find_root_class T = Thing)"
proof -
  have "{c \<in> set (classes T). directly_under_top T c} =
        {c \<in> set (classes T). set (ancestors T c True) = {Thing, c}}"
    using candidate_iff[OF assms] by blast
  then show ?thesis using find_root_class_candidates[of T] by metis
qed

theorem find_root_class_spec_witness:
  "dag two_roots \<and> Thing \<notin> set (classes two_roots) \<and>
   {c \<in> set (classes two_roots). directly_under_top two_roots c} = {Cls ''Animal'', Cls ''Vehicle''} \<and>
   find_root_class two_roots = Thing \<and>
   dag chain \<and> Thing \<notin> set (classes chain) \<and>
   {c \<in> set (classes chain). directly_under_top chain c} = {Cls ''Animal''} \<and>
   find_root_class chain = Cls ''Animal''"
proof -
  have d: "dag two_roots" by code_simp
  have t: "Thing \<notin> set (classes two_roots)" by code_simp
  have c: "{c \<in> set (classes two_roots). directly_under_top two_roots c} = {Cls ''Animal'', Cls ''Vehicle''}"
    by code_simp
  have n: "\<nexists>r. {Cls ''Animal'', Cls ''Vehicle''} = {r}" by auto
  have d': "dag chain" by code_simp
  have t': "Thing \<notin> set (classes chain)" by code_simp
  have c': "{c \<in> set (classes chain). directly_under_top chain c} = {Cls ''Animal''}"
    by code_simp
  show ?thesis
    using find_root_class_spec[OF d t] find_root_class_spec[OF d' t', of "Cls ''Animal''"] d t c n d' t' c'
    by simp
qed

section \<open>Taxonomy traversal: termination and order\<close>



















section \<open>Reclassification and instance creation: correctness\<close>

lemma remove_each_filter_gen:
  "\<forall>y \<in> set ys. \<not> P y \<Longrightarrow>
   remove_each (filter P xs) (ys @ xs) =
     Inr (if filter P xs \<noteq> [] \<and> ys @ filter (\<lambda>x. \<not> P x) xs = [] then [Thing]
          else ys @ filter (\<lambda>x. \<not> P x) xs)"
proof (induction xs arbitrary: ys)
  case Nil
  then show ?case by simp
next
  case (Cons x xs)
  show ?case
  proof (cases "P x")
    case True
    then have "x \<notin> set ys" using Cons.prems by auto
    then have r: "remove1 x (ys @ x # xs) = ys @ xs" by (simp add: remove1_append)
    show ?thesis
    proof (cases "ys @ xs = []")
      case e: True
      then show ?thesis using True by (simp add: list_remove_def is_a_changed_def)
    next
      case ne: False
      have step: "remove_each (filter P (x # xs)) (ys @ x # xs) =
                  remove_each (filter P xs) (ys @ xs)"
        using True r ne by (simp add: list_remove_def is_a_changed_def)
      have "filter P xs = [] \<Longrightarrow> ys @ filter (\<lambda>x. \<not> P x) xs \<noteq> []"
      proof -
        assume "filter P xs = []"
        then have "filter (\<lambda>x. \<not> P x) xs = xs" by (simp add: filter_empty_conv)
        with ne show ?thesis by simp
      qed
      then show ?thesis unfolding step Cons.IH[OF Cons.prems] using True by auto
    qed
  next
    case False
    then have "\<forall>y \<in> set (ys @ [x]). \<not> P y" using Cons.prems by auto
    from Cons.IH[OF this] False show ?thesis by simp
  qed
qed

lemma remove_each_filter:
  "remove_each (filter P xs) xs =
     Inr (if filter P xs \<noteq> [] \<and> filter (\<lambda>x. \<not> P x) xs = [] then [Thing]
          else filter (\<lambda>x. \<not> P x) xs)"
  using remove_each_filter_gen[of "[]" P xs] by simp

lemma not_py_in_ThingClass: "\<not> py_in ThingClass l"
  by (auto simp: py_in_def)

lemma set_class_of_instance_eq:
  "set_class_of_instance T i c = Inr (i\<lparr>is_instance_of := reclassified T (is_instance_of i) c\<rparr>)"
proof -
  let ?l = "is_instance_of i"
  let ?P = "\<lambda>t. supertype T t c True"
  let ?kept = "filter (\<lambda>t. \<not> ?P t) ?l"
  have "(if length (filter ?P ?l) > 0 then remove_each (filter ?P ?l) ?l else Inr ?l)
        = Inr (if ?kept = [] \<and> ?l \<noteq> [] then [Thing] else ?kept)"
  proof (cases "filter ?P ?l = []")
    case True
    then have "?kept = ?l" by (simp add: filter_empty_conv)
    with True show ?thesis by simp
  next
    case False
    then have "?l \<noteq> []" by auto
    with False show ?thesis by (simp add: remove_each_filter)
  qed
  then show ?thesis
    by (simp add: set_class_of_instance_def Let_def not_py_in_ThingClass reclassified_def
        list_append_def is_a_changed_def)
qed

text \<open>
  Claim C1 does not hold of the code. In the chain, the direct classes \<open>[Bird]\<close> of
  \<open>tweety\<close> satisfy the most-specific-class invariant (\<open>Bird\<close> is not among its own strict
  ancestors). The call with \<open>Penguin\<close> removes \<open>Bird\<close>, which leaves no class, so \<open>Thing\<close>
  is recorded; \<open>Penguin\<close> is appended, and the test of line 126 for the metaclass fails,
  so \<open>Thing\<close> stays: the direct classes are \<open>[Thing, Penguin]\<close>, and \<open>Thing\<close> is a strict
  ancestor of \<open>Penguin\<close>.
\<close>

theorem set_class_of_instance_leaves_Thing:
  "is_instance_of tweety_bird = [Cls ''Bird''] \<and>
   Cls ''Bird'' \<notin> set (ancestors chain (Cls ''Bird'') False) \<and>
   set_class_of_instance chain tweety_bird (Cls ''Penguin'') =
     Inr (tweety_bird\<lparr>is_instance_of := [Thing, Cls ''Penguin'']\<rparr>) \<and>
   Thing \<in> set (ancestors chain (Cls ''Penguin'') False)"
proof (intro conjI)
  show "is_instance_of tweety_bird = [Cls ''Bird'']" by (simp add: tweety_bird_def)
  show "Cls ''Bird'' \<notin> set (ancestors chain (Cls ''Bird'') False)" by code_simp
  have "reclassified chain (is_instance_of tweety_bird) (Cls ''Penguin'') = [Thing, Cls ''Penguin'']"
    by code_simp
  then show "set_class_of_instance chain tweety_bird (Cls ''Penguin'') =
     Inr (tweety_bird\<lparr>is_instance_of := [Thing, Cls ''Penguin'']\<rparr>)"
    by (simp add: set_class_of_instance_eq)
  show "Thing \<in> set (ancestors chain (Cls ''Penguin'') False)" by code_simp
qed

text \<open>
  The same input in terms of the invariant: it holds before the call and not after it.
\<close>

lemma most_specific_lost:
  "dag chain \<and> most_specific chain (is_instance_of tweety_bird) \<and>
   (\<exists>i'. set_class_of_instance chain tweety_bird (Cls ''Penguin'') = Inr i' \<and>
         \<not> most_specific chain (is_instance_of i'))"
proof -
  have d: "dag chain" by code_simp
  have m: "most_specific chain (is_instance_of tweety_bird)" by code_simp
  have r: "reclassified chain (is_instance_of tweety_bird) (Cls ''Penguin'') = [Thing, Cls ''Penguin'']"
    by code_simp
  have n: "\<not> most_specific chain [Thing, Cls ''Penguin'']" by code_simp
  have "set_class_of_instance chain tweety_bird (Cls ''Penguin'') =
     Inr (tweety_bird\<lparr>is_instance_of := [Thing, Cls ''Penguin'']\<rparr>)"
    by (simp add: set_class_of_instance_eq r)
  moreover have "\<not> most_specific chain
      (is_instance_of (tweety_bird\<lparr>is_instance_of := [Thing, Cls ''Penguin'']\<rparr>))"
    using n by simp
  ultimately show ?thesis using d m by blast
qed

lemma add_property_fields [simp]:
  "name (add_property i p v) = name i"
  "is_instance_of (add_property i p v) = is_instance_of i"
  by (simp_all add: add_property_def Let_def)

lemma owl_name_Tweety: "owl_name table (ustr_of ''Tweety'') True = Some (ustr_of ''tweety'')"
proof -
  have "unidecode table (ustr_of ''Tweety'') = ustr_of ''Tweety''"
    by (rule unidecode_ascii) (simp add: ustr_of_def)
  moreover have "normal_form True (ustr_of ''Tweety'') = ustr_of ''tweety''"
    by code_simp
  ultimately show ?thesis by (simp add: owl_name_eq)
qed

text \<open>
  Claim C3 does not hold of the code. In the chain \<open>Animal\<close>, \<open>Bird\<close>, \<open>Penguin\<close>,
  creating the instance \<open>Tweety\<close> under \<open>Bird\<close> gives an instance whose direct classes are
  \<open>[Bird]\<close>. Reclassifying it to \<open>Penguin\<close> leaves the direct classes \<open>[Thing, Penguin]\<close>,
  not \<open>{Penguin}\<close>: the removal of \<open>Bird\<close> leaves no class, so \<open>Thing\<close> is recorded, and
  the test of line 126 does not remove it. The further reclassification to \<open>Animal\<close> does
  not leave the direct classes unchanged: it removes \<open>Thing\<close>, a strict ancestor of
  \<open>Animal\<close>, and leaves \<open>[Penguin]\<close>.
\<close>

theorem tweety_scenario_leaves_Thing:
  "\<exists>tweety G1 penguin again.
     add_instance table \<lparr>onto_classes = chain, onto_individuals = [], onto_fancyName = fancy\<rparr>
       (Cls ''Bird'') (ustr_of ''Tweety'') flag = Some (Inr (tweety, G1)) \<and>
     individual_named G1 (ustr_of ''tweety'') = Some tweety \<and>
     is_instance_of tweety = [Cls ''Bird''] \<and>
     set_class_of_instance chain tweety (Cls ''Penguin'') = Inr penguin \<and>
     is_instance_of penguin = [Thing, Cls ''Penguin''] \<and>
     set (is_instance_of penguin) \<noteq> {Cls ''Penguin''} \<and>
     set_class_of_instance chain penguin (Cls ''Animal'') = Inr again \<and>
     is_instance_of again = [Cls ''Penguin''] \<and>
     is_instance_of again \<noteq> is_instance_of penguin"
proof -
  let ?G = "\<lparr>onto_classes = chain, onto_individuals = [], onto_fancyName = fancy\<rparr>"
  let ?n = "ustr_of ''tweety''"
  let ?t0 = "\<lparr>name = ?n, is_instance_of = [Cls ''Bird''], properties = []\<rparr>"
  let ?t = "if fancy then add_property ?t0 ''fancyName'' (Lit (ustr_of ''Tweety'')) else ?t0"
  have ne: "?n \<noteq> ustr_of ''Tweety''" by (simp add: ustr_of_def)
  have add: "add_instance table ?G (Cls ''Bird'') (ustr_of ''Tweety'') flag =
        Some (Inr (?t, store (store ?G ?t0) ?t))"
    using ne
    by (simp add: add_instance_def owl_name_Tweety instances_def first_or_none_def
        construct_def individual_named_def store_def Let_def)
  have cls: "is_instance_of ?t = [Cls ''Bird'']"
    by simp
  have named: "individual_named (store (store ?G ?t0) ?t) ?n = Some ?t"
    by (simp add: store_def individual_named_def)
  have r1: "reclassified chain [Cls ''Bird''] (Cls ''Penguin'') = [Thing, Cls ''Penguin'']"
    by code_simp
  have r2: "reclassified chain [Thing, Cls ''Penguin''] (Cls ''Animal'') = [Cls ''Penguin'']"
    by code_simp
  let ?p = "?t\<lparr>is_instance_of := [Thing, Cls ''Penguin'']\<rparr>"
  let ?a = "?t\<lparr>is_instance_of := [Cls ''Penguin'']\<rparr>"
  have s1: "set_class_of_instance chain ?t (Cls ''Penguin'') = Inr ?p"
    unfolding set_class_of_instance_eq cls r1 ..
  have pc: "is_instance_of ?p = [Thing, Cls ''Penguin'']" by simp
  have s2: "set_class_of_instance chain ?p (Cls ''Animal'') = Inr ?a"
    unfolding set_class_of_instance_eq pc r2 by simp
  have ac: "is_instance_of ?a = [Cls ''Penguin'']" by simp
  have d1: "set (is_instance_of ?p) \<noteq> {Cls ''Penguin''}" unfolding pc by auto
  have d2: "is_instance_of ?a \<noteq> is_instance_of ?p" unfolding pc ac by simp
  show ?thesis
    using add named cls s1 pc d1 s2 ac d2 by blast
qed

lemma first_or_none_filter:
  "(first_or_none (filter P xs) = None) = (\<forall>x \<in> set xs. \<not> P x)"
  "first_or_none (filter P xs) = Some y \<Longrightarrow> y \<in> set xs \<and> P y"
proof -
  have "(first_or_none (filter P xs) = None) = (filter P xs = [])"
    by (cases "filter P xs") (simp_all add: first_or_none_def)
  then show "(first_or_none (filter P xs) = None) = (\<forall>x \<in> set xs. \<not> P x)"
    by (simp add: filter_empty_conv)
  assume "first_or_none (filter P xs) = Some y"
  then have "y \<in> set (filter P xs)"
    by (cases "filter P xs") (auto simp: first_or_none_def)
  then show "y \<in> set xs \<and> P y" by simp
qed

text \<open>
  Claim C9. \<open>add_instance\<close> always returns or raises. It raises the exception for a
  duplicate instance (\<open>KeyError\<close>) if an instance whose name is the canonical form of the
  raw name exists among the instances of the class and the caller passed
  \<open>add_to_class_if_existing = False\<close>; in every other case it raises nothing and returns
  an instance.
\<close>

theorem add_instance_duplicate:
  "\<exists>res. add_instance table G c raw flag = Some res \<and>
     (res = Inl KeyError) =
       ((\<exists>i \<in> set (instances G c). owl_name table raw True = Some (name i)) \<and> \<not> flag) \<and>
     (\<not> ((\<exists>i \<in> set (instances G c). owl_name table raw True = Some (name i)) \<and> \<not> flag)
        \<longrightarrow> (\<exists>i G'. res = Inr (i, G')))"
proof -
  obtain n where n: "owl_name table raw True = Some n" by (simp add: owl_name_eq)
  let ?found = "first_or_none (filter (\<lambda>i. name i = n) (instances G c))"
  have ex: "(\<exists>i \<in> set (instances G c). owl_name table raw True = Some (name i)) = (?found \<noteq> None)"
    unfolding n first_or_none_filter(1) by auto
  show ?thesis
  proof (cases ?found)
    case None
    then show ?thesis unfolding ex
      by (simp add: add_instance_def n Let_def)
  next
    case (Some i)
    show ?thesis
    proof (cases flag)
      case True
      then show ?thesis unfolding ex using Some
        by (simp add: add_instance_def n Let_def set_class_of_instance_eq)
    next
      case False
      then show ?thesis unfolding ex using Some
        by (simp add: add_instance_def n Let_def)
    qed
  qed
qed

theorem add_instance_duplicate_witness:
  "(\<exists>i \<in> set (instances aviary (Cls ''Bird'')).
      owl_name (\<lambda>c. []) (ustr_of ''Tweety'') True = Some (name i)) \<and>
   add_instance (\<lambda>c. []) aviary (Cls ''Bird'') (ustr_of ''Tweety'') False = Some (Inl KeyError) \<and>
   (\<exists>i G'. add_instance (\<lambda>c. []) aviary (Cls ''Bird'') (ustr_of ''Tweety'') True = Some (Inr (i, G'))) \<and>
   \<not> (\<exists>i \<in> set (instances aviary (Cls ''Bird'')).
      owl_name (\<lambda>c. []) (ustr_of ''Polly'') True = Some (name i)) \<and>
   (\<exists>i G'. add_instance (\<lambda>c. []) aviary (Cls ''Bird'') (ustr_of ''Polly'') False = Some (Inr (i, G')))"
proof -
  have inst: "instances aviary (Cls ''Bird'') = [tweety_bird]" by code_simp
  have n1: "owl_name (\<lambda>c. []) (ustr_of ''Tweety'') True = Some (name tweety_bird)"
    by (simp add: owl_name_Tweety tweety_bird_def)
  have n2: "owl_name (\<lambda>c. []) (ustr_of ''Polly'') True \<noteq> Some (name tweety_bird)"
    by code_simp
  have d1: "\<exists>i \<in> set (instances aviary (Cls ''Bird'')).
      owl_name (\<lambda>c. []) (ustr_of ''Tweety'') True = Some (name i)"
    using inst n1 by simp
  have d2: "\<not> (\<exists>i \<in> set (instances aviary (Cls ''Bird'')).
      owl_name (\<lambda>c. []) (ustr_of ''Polly'') True = Some (name i))"
    using inst n2 by simp
  from add_instance_duplicate[of "\<lambda>c. []" aviary "Cls ''Bird''" "ustr_of ''Tweety''" False] d1
  have a: "add_instance (\<lambda>c. []) aviary (Cls ''Bird'') (ustr_of ''Tweety'') False = Some (Inl KeyError)"
    by auto
  from add_instance_duplicate[of "\<lambda>c. []" aviary "Cls ''Bird''" "ustr_of ''Tweety''" True]
  have b: "\<exists>i G'. add_instance (\<lambda>c. []) aviary (Cls ''Bird'') (ustr_of ''Tweety'') True = Some (Inr (i, G'))"
    by auto
  from add_instance_duplicate[of "\<lambda>c. []" aviary "Cls ''Bird''" "ustr_of ''Polly''" False] d2
  have c: "\<exists>i G'. add_instance (\<lambda>c. []) aviary (Cls ''Bird'') (ustr_of ''Polly'') False = Some (Inr (i, G'))"
    by auto
  from d1 a b d2 c show ?thesis by blast
qed

section \<open>Merging instances: correctness\<close>

lemma individual_named_destroy_self: "individual_named (destroy_entity g n) n = None"
  by (simp add: individual_named_def destroy_entity_def find_None_iff)

lemma find_map_filter_other:
  assumes "\<And>x. name (f x) = name x" "sv \<noteq> ab"
  shows "find (\<lambda>i. name i = sv) (map f (filter (\<lambda>i. name i \<noteq> ab) xs)) =
         map_option f (find (\<lambda>i. name i = sv) xs)"
  using assms by (induction xs) auto

lemma getattr_drop_refs:
  "getattr (i\<lparr>properties := map (\<lambda>(p, vs). (p, filter P vs)) (properties i)\<rparr>) q =
   filter P (getattr i q)"
proof -
  have "map_of (map (\<lambda>(p, vs). (p, filter P vs)) (properties i)) q =
        map_option (filter P) (map_of (properties i) q)"
    by (simp add: map_of_map)
  then show ?thesis by (cases "map_of (properties i) q") (simp_all add: getattr_def)
qed

lemma getattr_in_destroy_other:
  assumes "sv \<noteq> ab"
  shows "getattr_in (destroy_entity g ab) sv q = filter (\<lambda>v. v \<noteq> Inst ab) (getattr_in g sv q)"
proof -
  let ?f = "\<lambda>i. i\<lparr>properties := map (\<lambda>(p, vs). (p, filter (\<lambda>v. v \<noteq> Inst ab) vs)) (properties i)\<rparr>"
  have "individual_named (destroy_entity g ab) sv = map_option ?f (individual_named g sv)"
    unfolding individual_named_def destroy_entity_def
    using find_map_filter_other[of ?f sv ab "onto_individuals g"] assms by simp
  then show ?thesis
    by (cases "individual_named g sv") (simp_all add: getattr_in_def getattr_drop_refs)
qed

lemma find_replace:
  assumes "name i' = n"
  shows "find (\<lambda>i. name i = m) (map (\<lambda>x. if name x = n then i' else x) xs) =
         (if m = n then (if \<exists>x \<in> set xs. name x = n then Some i' else None)
          else find (\<lambda>i. name i = m) xs)"
  using assms by (induction xs) auto

lemma individual_named_store:
  assumes "individual_named g (name i') \<noteq> None"
  shows "individual_named (store g i') m =
         (if m = name i' then Some i' else individual_named g m)"
proof -
  have ex: "\<exists>x \<in> set (onto_individuals g). name x = name i'"
    using assms by (auto simp: individual_named_def find_None_iff)
  then show ?thesis
    using find_replace[of i' "name i'" m "onto_individuals g"]
    by (simp add: store_def individual_named_def)
qed

lemma individual_named_name: "individual_named g n = Some i \<Longrightarrow> name i = n"
  by (auto simp: individual_named_def dest: find_Some_iff[THEN iffD1])

lemma getattr_add_property:
  "set (getattr (add_property i p v) q) = set (getattr i q) \<union> (if q = p then {v} else {})"
  by (auto simp: add_property_def getattr_def Let_def update_conv' split: option.splits)

lemma add_property_in_facts:
  assumes "individual_named g sv \<noteq> None"
  shows "individual_named (add_property_in g sv p v) sv \<noteq> None"
    and "m \<noteq> sv \<Longrightarrow> individual_named (add_property_in g sv p v) m = individual_named g m"
    and "set (getattr_in (add_property_in g sv p v) sv q) =
         set (getattr_in g sv q) \<union> (if q = p then {v} else {})"
proof -
  from assms obtain i where i: "individual_named g sv = Some i" by auto
  then have n: "name i = sv" by (rule individual_named_name)
  have st: "individual_named (store g (add_property i p v)) m' =
        (if m' = sv then Some (add_property i p v) else individual_named g m')" for m'
    using individual_named_store[of g "add_property i p v" m'] i n by simp
  show "individual_named (add_property_in g sv p v) sv \<noteq> None"
    using i st[of sv] by (simp add: add_property_in_def)
  show "m \<noteq> sv \<Longrightarrow> individual_named (add_property_in g sv p v) m = individual_named g m"
    using i st[of m] by (simp add: add_property_in_def)
  show "set (getattr_in (add_property_in g sv p v) sv q) =
         set (getattr_in g sv q) \<union> (if q = p then {v} else {})"
    using i st[of sv] by (simp add: add_property_in_def getattr_in_def getattr_add_property)
qed

lemma add_values_facts:
  assumes "individual_named g sv \<noteq> None"
  shows "individual_named (foldl (\<lambda>g' v. add_property_in g' sv p v) g vs) sv \<noteq> None \<and>
         (\<forall>m. m \<noteq> sv \<longrightarrow>
            individual_named (foldl (\<lambda>g' v. add_property_in g' sv p v) g vs) m = individual_named g m) \<and>
         (\<forall>q. set (getattr_in (foldl (\<lambda>g' v. add_property_in g' sv p v) g vs) sv q) =
            set (getattr_in g sv q) \<union> (if q = p then set vs else {}))"
  using assms
proof (induction vs arbitrary: g)
  case Nil
  then show ?case by simp
next
  case (Cons v vs)
  let ?g = "add_property_in g sv p v"
  have f1: "individual_named ?g sv \<noteq> None"
    by (rule add_property_in_facts(1)[OF Cons.prems])
  have f2: "\<And>m. m \<noteq> sv \<Longrightarrow> individual_named ?g m = individual_named g m"
    by (rule add_property_in_facts(2)[OF Cons.prems])
  have f3: "\<And>q. set (getattr_in ?g sv q) = set (getattr_in g sv q) \<union> (if q = p then {v} else {})"
    by (rule add_property_in_facts(3)[OF Cons.prems])
  have e: "foldl (\<lambda>g' v. add_property_in g' sv p v) g (v # vs) =
           foldl (\<lambda>g' v. add_property_in g' sv p v) ?g vs" by simp
  from Cons.IH[OF f1] show ?case
    unfolding e using f2 f3 by auto
qed

lemma merge_instances_eq:
  "merge_instances G sv ab c =
     (if sv \<in> name ` set (instances G c) \<and> ab \<in> name ` set (instances G c)
      then (True, destroy_entity (foldl (merge_property sv ab) G (get_properties_in G ab)) ab)
      else (False, G))"
proof -
  have "(\<lambda>g prop. if prop \<noteq> ''fancyName''
            then foldl (\<lambda>g' v. add_property_in g' sv prop v) g (getattr_in g ab prop)
            else g) = merge_property sv ab"
    by (intro ext) (simp only: merge_property_def)
  then show ?thesis by (simp add: merge_instances_def Let_def)
qed

lemma getattr_in_cong:
  "individual_named g n = individual_named g' n \<Longrightarrow> getattr_in g n p = getattr_in g' n p"
  by (simp add: getattr_in_def)

lemma merge_property_facts:
  assumes "individual_named g sv \<noteq> None" "sv \<noteq> ab"
  shows "individual_named (merge_property sv ab g p) sv \<noteq> None"
    and "individual_named (merge_property sv ab g p) ab = individual_named g ab"
    and "set (getattr_in g sv q) \<subseteq> set (getattr_in (merge_property sv ab g p) sv q)"
    and "p \<noteq> ''fancyName'' \<Longrightarrow>
         set (getattr_in g ab p) \<subseteq> set (getattr_in (merge_property sv ab g p) sv p)"
proof -
  note v = add_values_facts[where g = g and sv = sv and p = p and vs = "getattr_in g ab p", OF assms(1)]
  show "individual_named (merge_property sv ab g p) sv \<noteq> None"
    using v assms(1) by (simp add: merge_property_def)
  show "individual_named (merge_property sv ab g p) ab = individual_named g ab"
    using v assms(2) by (simp add: merge_property_def)
  show "set (getattr_in g sv q) \<subseteq> set (getattr_in (merge_property sv ab g p) sv q)"
    using v by (simp add: merge_property_def)
  show "p \<noteq> ''fancyName'' \<Longrightarrow>
         set (getattr_in g ab p) \<subseteq> set (getattr_in (merge_property sv ab g p) sv p)"
    using v by (simp add: merge_property_def)
qed

lemma merge_loop_facts:
  assumes "individual_named g sv \<noteq> None" "sv \<noteq> ab"
  shows "individual_named (foldl (merge_property sv ab) g ps) sv \<noteq> None \<and>
         individual_named (foldl (merge_property sv ab) g ps) ab = individual_named g ab \<and>
         (\<forall>q. set (getattr_in g sv q) \<subseteq> set (getattr_in (foldl (merge_property sv ab) g ps) sv q)) \<and>
         (\<forall>p \<in> set ps. p \<noteq> ''fancyName'' \<longrightarrow>
            set (getattr_in g ab p) \<subseteq> set (getattr_in (foldl (merge_property sv ab) g ps) sv p))"
  using assms(1)
proof (induction ps arbitrary: g)
  case Nil
  then show ?case by simp
next
  case (Cons p ps)
  let ?g = "merge_property sv ab g p"
  let ?r = "foldl (merge_property sv ab) ?g ps"
  note f = merge_property_facts[where g = g and p = p, OF Cons.prems assms(2)]
  have e: "foldl (merge_property sv ab) g (p # ps) = ?r" by simp
  from Cons.IH[OF f(1)] have
    ih1: "individual_named ?r sv \<noteq> None" and
    ih2: "individual_named ?r ab = individual_named ?g ab" and
    ih3: "\<And>q. set (getattr_in ?g sv q) \<subseteq> set (getattr_in ?r sv q)" and
    ih4: "\<And>p'. p' \<in> set ps \<Longrightarrow> p' \<noteq> ''fancyName'' \<Longrightarrow>
            set (getattr_in ?g ab p') \<subseteq> set (getattr_in ?r sv p')"
    by blast+
  have same: "\<And>p'. getattr_in ?g ab p' = getattr_in g ab p'"
    by (rule getattr_in_cong) (rule f(2))
  have a: "individual_named ?r ab = individual_named g ab" using ih2 f(2) by simp
  have b: "\<And>q. set (getattr_in g sv q) \<subseteq> set (getattr_in ?r sv q)"
    using f(3) ih3 by blast
  have c: "\<And>p'. p' \<in> set (p # ps) \<Longrightarrow> p' \<noteq> ''fancyName'' \<Longrightarrow>
            set (getattr_in g ab p') \<subseteq> set (getattr_in ?r sv p')"
  proof -
    fix p' assume p': "p' \<in> set (p # ps)" "p' \<noteq> ''fancyName''"
    show "set (getattr_in g ab p') \<subseteq> set (getattr_in ?r sv p')"
    proof (cases "p' \<in> set ps")
      case True
      from ih4[OF True p'(2)] show ?thesis unfolding same .
    next
      case False
      with p'(1) have "p' = p" by simp
      with f(4) p'(2) ih3[of p] show ?thesis by blast
    qed
  qed
  show ?case unfolding e using ih1 a b c by blast
qed

lemma getattr_in_property_listed:
  assumes "v \<in> set (getattr_in G n p)"
  shows "p \<in> set (get_properties_in G n)"
proof -
  from assms obtain i where i: "individual_named G n = Some i" "v \<in> set (getattr i p)"
    by (cases "individual_named G n") (auto simp: getattr_in_def)
  then obtain vs where vs: "map_of (properties i) p = Some vs" "v \<in> set vs"
    by (cases "map_of (properties i) p") (auto simp: getattr_def)
  then have "(p, vs) \<in> set (properties i)" "vs \<noteq> []" by (auto dest: map_of_SomeD)
  then have "p \<in> set (get_properties i)" by (force simp: get_properties_def)
  with i(1) show ?thesis by (simp add: get_properties_in_def)
qed

lemma instance_named:
  "n \<in> name ` set (instances G c) \<Longrightarrow> individual_named G n \<noteq> None"
  by (auto simp: instances_def individual_named_def find_None_iff)

text \<open>
  Claim C2, as amended. If either instance is not among the current instances of the
  scoping class, \<open>merge_instances\<close> returns false and leaves the whole graph unchanged.
  Otherwise it returns true and the absorbed instance no longer exists in the graph; and
  if the survivor and the absorbed instance are different, every value of every property
  that the absorbed instance held, except the \<open>fancyName\<close> property and except a reference
  to the absorbed instance itself, is among the values of the same property of the
  survivor afterwards.
\<close>

theorem merge_instances_union:
  "(\<not> (sv \<in> name ` set (instances G c) \<and> ab \<in> name ` set (instances G c)) \<longrightarrow>
      merge_instances G sv ab c = (False, G)) \<and>
   (sv \<in> name ` set (instances G c) \<and> ab \<in> name ` set (instances G c) \<longrightarrow>
      fst (merge_instances G sv ab c) \<and>
      individual_named (snd (merge_instances G sv ab c)) ab = None \<and>
      (sv \<noteq> ab \<longrightarrow>
         (\<forall>p v. p \<noteq> ''fancyName'' \<and> v \<in> set (getattr_in G ab p) \<and> v \<noteq> Inst ab \<longrightarrow>
                v \<in> set (getattr_in (snd (merge_instances G sv ab c)) sv p))))"
proof (intro conjI impI allI)
  assume "\<not> (sv \<in> name ` set (instances G c) \<and> ab \<in> name ` set (instances G c))"
  then show "merge_instances G sv ab c = (False, G)"
    by (simp add: merge_instances_eq)
next
  assume "sv \<in> name ` set (instances G c) \<and> ab \<in> name ` set (instances G c)"
  then show "fst (merge_instances G sv ab c)" by (simp add: merge_instances_eq)
next
  assume "sv \<in> name ` set (instances G c) \<and> ab \<in> name ` set (instances G c)"
  then show "individual_named (snd (merge_instances G sv ab c)) ab = None"
    by (simp add: merge_instances_eq individual_named_destroy_self)
next
  fix p v
  assume both: "sv \<in> name ` set (instances G c) \<and> ab \<in> name ` set (instances G c)"
    and ne: "sv \<noteq> ab"
    and pv: "p \<noteq> ''fancyName'' \<and> v \<in> set (getattr_in G ab p) \<and> v \<noteq> Inst ab"
  let ?g = "foldl (merge_property sv ab) G (get_properties_in G ab)"
  have ex: "individual_named G sv \<noteq> None" using both instance_named by blast
  have listed: "p \<in> set (get_properties_in G ab)"
    using pv by (blast intro: getattr_in_property_listed)
  from merge_loop_facts[OF ex ne, of "get_properties_in G ab"] listed pv
  have "v \<in> set (getattr_in ?g sv p)" by blast
  then have "v \<in> set (getattr_in (destroy_entity ?g ab) sv p)"
    using pv by (simp add: getattr_in_destroy_other[OF ne])
  then show "v \<in> set (getattr_in (snd (merge_instances G sv ab c)) sv p)"
    using both by (simp add: merge_instances_eq)
qed

text \<open>
  Claim C10. For every class \<open>c\<close> and every instance \<open>n\<close> among the current instances of
  \<open>c\<close>, merging \<open>n\<close> with itself passes the precondition check and returns true, and
  after the call the instance no longer exists in the graph.
\<close>

theorem merge_instances_self:
  "n \<in> name ` set (instances G c) \<longrightarrow>
     fst (merge_instances G n n c) \<and>
     individual_named (snd (merge_instances G n n c)) n = None \<and>
     n \<notin> name ` set (onto_individuals (snd (merge_instances G n n c)))"
proof
  assume n: "n \<in> name ` set (instances G c)"
  then have m: "merge_instances G n n c =
      (True, destroy_entity (foldl (merge_property n n) G (get_properties_in G n)) n)"
    by (simp add: merge_instances_eq)
  have "n \<notin> name ` set (onto_individuals (destroy_entity g n))" for g
  proof -
    have "map name (onto_individuals (destroy_entity g n)) =
          map name (filter (\<lambda>i. name i \<noteq> n) (onto_individuals g))"
      by (simp add: destroy_entity_def comp_def)
    then have "name ` set (onto_individuals (destroy_entity g n)) =
          name ` set (filter (\<lambda>i. name i \<noteq> n) (onto_individuals g))"
      by (metis set_map)
    then show ?thesis by auto
  qed
  then show "fst (merge_instances G n n c) \<and>
     individual_named (snd (merge_instances G n n c)) n = None \<and>
     n \<notin> name ` set (onto_individuals (snd (merge_instances G n n c)))"
    unfolding m by (simp add: individual_named_destroy_self)
qed

theorem merge_instances_union_witness:
  "ustr_of ''tweety'' \<in> name ` set (instances flock (Cls ''Bird'')) \<and>
   ustr_of ''polly'' \<in> name ` set (instances flock (Cls ''Bird'')) \<and>
   fst (merge_instances flock (ustr_of ''tweety'') (ustr_of ''polly'') (Cls ''Bird'')) \<and>
   individual_named (snd (merge_instances flock (ustr_of ''tweety'') (ustr_of ''polly'') (Cls ''Bird'')))
     (ustr_of ''polly'') = None \<and>
   Lit (ustr_of ''grey'') \<in> set (getattr_in flock (ustr_of ''polly'') ''colour'') \<and>
   Lit (ustr_of ''grey'') \<in> set (getattr_in
     (snd (merge_instances flock (ustr_of ''tweety'') (ustr_of ''polly'') (Cls ''Bird'')))
     (ustr_of ''tweety'') ''colour'') \<and>
   ustr_of ''tweety'' \<notin> name ` set (instances flock (Cls ''Penguin'')) \<and>
   merge_instances flock (ustr_of ''tweety'') (ustr_of ''polly'') (Cls ''Penguin'') = (False, flock)"
proof -
  let ?sv = "ustr_of ''tweety''" and ?ab = "ustr_of ''polly''"
  have i1: "?sv \<in> name ` set (instances flock (Cls ''Bird''))" by code_simp
  have i2: "?ab \<in> name ` set (instances flock (Cls ''Bird''))" by code_simp
  have i3: "?sv \<notin> name ` set (instances flock (Cls ''Penguin''))" by code_simp
  have ne: "?sv \<noteq> ?ab" by code_simp
  have v: "Lit (ustr_of ''grey'') \<in> set (getattr_in flock ?ab ''colour'')"
    by code_simp
  have pv: "''colour'' \<noteq> ''fancyName'' \<and>
            Lit (ustr_of ''grey'') \<in> set (getattr_in flock ?ab ''colour'') \<and>
            Lit (ustr_of ''grey'') \<noteq> Inst ?ab"
    using v by simp
  have both: "?sv \<in> name ` set (instances flock (Cls ''Bird'')) \<and>
              ?ab \<in> name ` set (instances flock (Cls ''Bird''))"
    using i1 i2 by (rule conjI)
  have notboth: "\<not> (?sv \<in> name ` set (instances flock (Cls ''Penguin'')) \<and>
              ?ab \<in> name ` set (instances flock (Cls ''Penguin'')))"
    using i3 by (rule contrapos_nn) (erule conjunct1)
  note t = merge_instances_union[where sv = ?sv and ab = ?ab and G = flock and c = "Cls ''Bird''",
      THEN conjunct2, THEN mp, OF both]
  note a = t[THEN conjunct1]
  note b = t[THEN conjunct2, THEN conjunct1]
  note c = t[THEN conjunct2, THEN conjunct2, THEN mp, OF ne, THEN spec, THEN spec, THEN mp, OF pv]
  note d = merge_instances_union[where sv = ?sv and ab = ?ab and G = flock and c = "Cls ''Penguin''",
      THEN conjunct1, THEN mp, OF notboth]
  show ?thesis
    by (intro conjI) (rule i1 i2 a b v c i3 d)+
qed

text \<open>
  Claim C2 as stated fails: \<open>polly\<close> follows itself, the merge of \<open>polly\<close> into \<open>tweety\<close>
  returns true, and the value is not among what \<open>tweety\<close> follows afterwards, because the
  deletion of \<open>polly\<close> removes every reference to it.
\<close>

theorem merge_instances_claim_counterexample:
  "ustr_of ''tweety'' \<in> name ` set (instances flock (Cls ''Bird'')) \<and>
   ustr_of ''polly'' \<in> name ` set (instances flock (Cls ''Bird'')) \<and>
   ''follows'' \<noteq> ''fancyName'' \<and>
   Inst (ustr_of ''polly'') \<in> set (getattr_in flock (ustr_of ''polly'') ''follows'') \<and>
   Inst (ustr_of ''polly'') \<notin> set (getattr_in
     (snd (merge_instances flock (ustr_of ''tweety'') (ustr_of ''polly'') (Cls ''Bird'')))
     (ustr_of ''tweety'') ''follows'')"
proof (intro conjI)
  show "ustr_of ''tweety'' \<in> name ` set (instances flock (Cls ''Bird''))" by code_simp
  show "ustr_of ''polly'' \<in> name ` set (instances flock (Cls ''Bird''))" by code_simp
  show "''follows'' \<noteq> ''fancyName''" by simp
  show "Inst (ustr_of ''polly'') \<in> set (getattr_in flock (ustr_of ''polly'') ''follows'')"
    by code_simp
  show "Inst (ustr_of ''polly'') \<notin> set (getattr_in
     (snd (merge_instances flock (ustr_of ''tweety'') (ustr_of ''polly'') (Cls ''Bird'')))
     (ustr_of ''tweety'') ''follows'')"
    by code_simp
qed

theorem merge_instances_self_witness:
  "ustr_of ''polly'' \<in> name ` set (instances flock (Cls ''Bird'')) \<and>
   fst (merge_instances flock (ustr_of ''polly'') (ustr_of ''polly'') (Cls ''Bird'')) \<and>
   individual_named (snd (merge_instances flock (ustr_of ''polly'') (ustr_of ''polly'') (Cls ''Bird'')))
     (ustr_of ''polly'') = None \<and>
   ustr_of ''polly'' \<notin> name ` set (onto_individuals
     (snd (merge_instances flock (ustr_of ''polly'') (ustr_of ''polly'') (Cls ''Bird''))))"
proof -
  have i: "ustr_of ''polly'' \<in> name ` set (instances flock (Cls ''Bird''))" by code_simp
  note t = merge_instances_self[where n = "ustr_of ''polly''" and G = flock and c = "Cls ''Bird''",
      THEN mp, OF i]
  show ?thesis using i t by (rule conjI)
qed

end
